theory Spec2Isabelle
  imports Main "HOL-Library.Multiset" "HOL-Library.Word"
begin

section \<open>The external collaborators\<close>

text \<open>
  \<^verbatim>\<open>external-ip.go\<close> calls library functions whose code is not part of the
  package: \<^verbatim>\<open>dns.Exchange\<close>, \<^verbatim>\<open>net.ParseIP\<close>, \<^verbatim>\<open>IP.To4\<close>, \<^verbatim>\<open>IP.String\<close>,
  \<^verbatim>\<open>http.Get\<close> with \<^verbatim>\<open>ioutil.ReadAll\<close>, and \<^verbatim>\<open>strings.TrimSpace\<close>. They are the
  fields of an environment that every asker takes as a parameter; nothing is assumed
  about what they compute.
\<close>

datatype error = Error string
  \<comment> \<open>a non-nil Go \<^verbatim>\<open>error\<close> value\<close>

datatype panic = IndexOutOfRange
  \<comment> \<open>the run-time panic of \<^verbatim>\<open>xs[0]\<close> on an empty slice\<close>

type_synonym IP = "8 word list"
  \<comment> \<open>\<^verbatim>\<open>net.IP\<close> is a byte slice; the nil address is the empty list\<close>

datatype RR = RR_TXT "string list" | RR_A IP | RR_other
  \<comment> \<open>the resource records the askers tell apart by type assertion:
      \<^verbatim>\<open>*dns.TXT\<close> with its field \<^verbatim>\<open>Txt\<close>, \<^verbatim>\<open>*dns.A\<close> with its field \<^verbatim>\<open>A\<close>, any other\<close>

record Msg =
  Answer :: "RR list"

datatype qtype = TypeA | TypeTXT

record Response =
  StatusCode :: int
  Body :: "error + string"
  \<comment> \<open>\<^verbatim>\<open>Body\<close> holds what \<^verbatim>\<open>ioutil.ReadAll(resp.Body)\<close> yields: the bytes or an error\<close>

record env =
  Exchange :: "string \<Rightarrow> qtype \<Rightarrow> string \<Rightarrow> error + Msg"
  ParseIP :: "string \<Rightarrow> IP"
  To4 :: "IP \<Rightarrow> IP"
  IP_String :: "IP \<Rightarrow> string"
  Get :: "string \<Rightarrow> error + Response"
  TrimSpace :: "string \<Rightarrow> string"

section \<open>The collecting goroutine\<close>

text \<open>
  \<^verbatim>\<open>DNS\<close> and \<^verbatim>\<open>HTTP\<close> run the same code over their pool (lines 29--45 and 122--136):
  \<^verbatim>\<open>
  result := make(chan string)
  go func() {
      ips := make(map[string]int)
      done := false
      for range queriers {
          ip := <-ch
          ips[ip]++
          if !done && ips[ip] > len(queriers)/2 {
              result <- ip
              done = true
          }
      }
      close(result)
  }()
  return <-result
  \<close>
  The map is a partial map read with the zero value for an absent key. The counters and
  the pool size are natural numbers: they start at 0, grow by one per received value and
  never pass the length of the pool, so Go's \<^verbatim>\<open>int\<close> never wraps and \<^verbatim>\<open>/\<close> is \<open>div\<close>.
\<close>

type_synonym tally = "string \<rightharpoonup> nat"

definition at :: "tally \<Rightarrow> string \<Rightarrow> nat" where
  \<comment> \<open>\<^verbatim>\<open>ips[ip]\<close> read\<close>
  "at m k = (case m k of None \<Rightarrow> 0 | Some c \<Rightarrow> c)"

definition incr :: "tally \<Rightarrow> string \<Rightarrow> tally" where
  \<comment> \<open>\<^verbatim>\<open>ips[ip]++\<close>\<close>
  "incr m k = m(k \<mapsto> at m k + 1)"

text \<open>
  The state of the goroutine: its two locals, the values it has sent on the unbuffered
  channel \<^verbatim>\<open>result\<close> (in order), and whether it has closed that channel. The local
  \<^verbatim>\<open>done\<close> is the field \<open>done_flag\<close>.
\<close>

record collector =
  ips :: tally
  done_flag :: bool
  result :: "string list"
  closed :: bool

definition start :: collector where
  "start = \<lparr>ips = Map.empty, done_flag = False, result = [], closed = False\<rparr>"

definition body :: "nat \<Rightarrow> collector \<Rightarrow> string \<Rightarrow> collector" where
  \<comment> \<open>one iteration, for a pool of \<open>n\<close> askers, on the value \<open>ip\<close> received from \<^verbatim>\<open>ch\<close>\<close>
  "body n c ip =
     (let c1 = c\<lparr>ips := incr (ips c) ip\<rparr>
      in if \<not> done_flag c1 \<and> n div 2 < at (ips c1) ip
         then c1\<lparr>result := result c1 @ [ip], done_flag := True\<rparr>
         else c1)"

text \<open>
  The loop makes one receive per asker of the pool. \<open>ch\<close> lists the values the asker
  goroutines deliver on \<^verbatim>\<open>ch\<close>, in the order the collector receives them. With
  iterations left and nothing more delivered, the goroutine stays blocked in \<^verbatim>\<open><-ch\<close>
  and \<^verbatim>\<open>close(result)\<close> is never reached.
\<close>

fun range_loop :: "nat \<Rightarrow> nat \<Rightarrow> collector \<Rightarrow> string list \<Rightarrow> collector" where
  "range_loop n 0 c ch = c\<lparr>closed := True\<rparr>"
| "range_loop n (Suc k) c [] = c"
| "range_loop n (Suc k) c (ip # ch) = range_loop n k (body n c ip) ch"

definition collect :: "nat \<Rightarrow> string list \<Rightarrow> collector" where
  "collect n ch = range_loop n n start ch"

text \<open>
  \<^verbatim>\<open>return <-result\<close> in the calling goroutine: the first value sent, else the zero
  value \<^verbatim>\<open>""\<close> of a closed channel, else the caller stays blocked (\<open>None\<close>).
\<close>

definition receive :: "collector \<Rightarrow> string option" where
  "receive c =
     (case result c of
        v # _ \<Rightarrow> Some v
      | [] \<Rightarrow> if closed c then Some [] else None)"

definition aggregate :: "nat \<Rightarrow> string list \<Rightarrow> string option" where
  "aggregate n ch = receive (collect n ch)"

section \<open>The DNS pool\<close>

definition GoogleDNS :: "env \<Rightarrow> panic + string" where
  "GoogleDNS e =
     (case Exchange e ''o-o.myaddr.l.google.com.'' TypeTXT ''ns1.google.com:53'' of
        Inl err \<Rightarrow> Inr []
      | Inr msg \<Rightarrow>
          (case Answer msg of
             [] \<Rightarrow> Inl IndexOutOfRange
           | rr # _ \<Rightarrow>
               (case rr of
                  RR_TXT txt \<Rightarrow>
                    (case txt of
                       [] \<Rightarrow> Inl IndexOutOfRange
                     | t # _ \<Rightarrow> Inr (IP_String e (To4 e (ParseIP e t))))
                | _ \<Rightarrow> Inr [])))"

definition OpenDNS :: "env \<Rightarrow> panic + string" where
  "OpenDNS e =
     (case Exchange e ''myip.opendns.com.'' TypeA ''resolver1.opendns.com:53'' of
        Inl err \<Rightarrow> Inr []
      | Inr msg \<Rightarrow>
          (case Answer msg of
             [] \<Rightarrow> Inl IndexOutOfRange
           | rr # _ \<Rightarrow>
               (case rr of
                  RR_A a \<Rightarrow> Inr (IP_String e (To4 e a))
                | _ \<Rightarrow> Inr [])))"

definition AkamaiDNS :: "env \<Rightarrow> panic + string" where
  "AkamaiDNS e =
     (case Exchange e ''whoami.akamai.net.'' TypeA ''ns1-1.akamaitech.net:53'' of
        Inl err \<Rightarrow> Inr []
      | Inr msg \<Rightarrow>
          (case Answer msg of
             [] \<Rightarrow> Inl IndexOutOfRange
           | rr # _ \<Rightarrow>
               (case rr of
                  RR_A a \<Rightarrow> Inr (IP_String e (To4 e a))
                | _ \<Rightarrow> Inr [])))"

definition queriers :: "(env \<Rightarrow> panic + string) list" where
  "queriers = [GoogleDNS, OpenDNS, AkamaiDNS]"

definition DNS :: "string list \<Rightarrow> string option" where
  "DNS ch = aggregate (length queriers) ch"

section \<open>The HTTP pool\<close>

definition urls :: "string list" where
  "urls =
    [''http://v4.ident.me/'',
     ''http://whatismyip.akamai.com/'',
     ''http://checkip.amazonaws.com/'',
     ''http://ipecho.net/plain'',
     ''http://inet-ip.info/ip'',
     ''http://eth0.me/'',
     ''http://wgetip.com/'',
     ''http://bot.whatismyipaddress.com/'',
     ''http://ipof.in/txt'',
     ''http://smart-ip.net/myip'',
     ''https://ip.tyk.nu/'',
     ''https://tnx.nl/ip'',
     ''https://l2.io/ip'',
     ''https://api.ipify.org/'',
     ''https://myexternalip.com/raw'',
     ''https://icanhazip.com'',
     ''https://ifconfig.io/ip'',
     ''https://wtfismyip.com/text'']"

definition urlGetReadAll :: "env \<Rightarrow> string \<Rightarrow> string" where
  "urlGetReadAll e url =
     (case Get e url of
        Inl err \<Rightarrow> []
      | Inr resp \<Rightarrow>
          (case Body resp of
             Inl err \<Rightarrow> []
           | Inr bytes \<Rightarrow> TrimSpace e bytes))"

definition HTTP :: "string list \<Rightarrow> string option" where
  "HTTP ch = aggregate (length urls) ch"

section \<open>An environment for the examples\<close>

text \<open>
  A network in which every DNS exchange times out, the ten \<^verbatim>\<open>http:\<close> services answer
  404 with the same page, one \<^verbatim>\<open>https:\<close> service answers 200 with an address, one
  breaks off while the body is read, and the others refuse the connection.
\<close>

definition trim_blanks :: "string \<Rightarrow> string" where
  "trim_blanks s =
     rev (dropWhile (\<lambda>c. c = CHR '' '') (rev (dropWhile (\<lambda>c. c = CHR '' '') s)))"

definition sample_env :: env where
  "sample_env =
     \<lparr>Exchange = (\<lambda>name t server. Inl (Error ''i/o timeout'')),
      ParseIP = (\<lambda>s. []),
      To4 = (\<lambda>ip. ip),
      IP_String = (\<lambda>ip. ''<nil>''),
      Get = (\<lambda>url.
        if url = ''https://api.ipify.org/''
        then Inr \<lparr>StatusCode = 200, Body = Inr '' 203.0.113.7 ''\<rparr>
        else if url = ''https://icanhazip.com''
        then Inr \<lparr>StatusCode = 200, Body = Inl (Error ''unexpected EOF'')\<rparr>
        else if take 5 url = ''http:''
        then Inr \<lparr>StatusCode = 404, Body = Inr '' Not Found ''\<rparr>
        else Inl (Error ''connection refused'')),
      TrimSpace = trim_blanks\<rparr>"

section \<open>The loop as a fold\<close>

lemma at_incr: "at (incr m k) w = (if w = k then at m k + 1 else at m w)"
  by (simp add: at_def incr_def)

lemma at_empty: "at Map.empty w = 0"
  by (simp add: at_def)

lemma body_ips: "ips (body n c ip) = incr (ips c) ip"
  by (simp add: body_def Let_def)

lemma body_closed: "closed (body n c ip) = closed c"
  by (simp add: body_def Let_def)

lemma body_done:
  "done_flag c \<Longrightarrow> done_flag (body n c ip) \<and> result (body n c ip) = result c"
  by (simp add: body_def Let_def)

lemma body_emit:
  "\<not> done_flag c \<Longrightarrow> n div 2 < at (ips c) ip + 1 \<Longrightarrow>
     done_flag (body n c ip) \<and> result (body n c ip) = result c @ [ip]"
  by (simp add: body_def Let_def at_incr)

lemma body_quiet:
  "\<not> done_flag c \<Longrightarrow> at (ips c) ip + 1 \<le> n div 2 \<Longrightarrow>
     \<not> done_flag (body n c ip) \<and> result (body n c ip) = result c"
  by (simp add: body_def Let_def at_incr)

lemma range_loop_foldl:
  "range_loop n k c ch =
     (if k \<le> length ch then (foldl (body n) c (take k ch))\<lparr>closed := True\<rparr>
      else foldl (body n) c ch)"
  by (induction n k c ch rule: range_loop.induct) simp_all

lemma foldl_ips: "at (ips (foldl (body n) c xs)) w = at (ips c) w + count_list xs w"
  by (induction xs arbitrary: c) (simp_all add: body_ips at_incr)

lemma foldl_closed: "closed (foldl (body n) c xs) = closed c"
  by (induction xs arbitrary: c) (simp_all add: body_closed)

lemma foldl_done:
  "done_flag c \<Longrightarrow>
     done_flag (foldl (body n) c xs) \<and> result (foldl (body n) c xs) = result c"
  by (induction xs arbitrary: c) (simp_all add: body_done)

lemma foldl_quiet:
  "\<not> done_flag c \<Longrightarrow> (\<And>w. at (ips c) w + count_list xs w \<le> n div 2) \<Longrightarrow>
     \<not> done_flag (foldl (body n) c xs) \<and> result (foldl (body n) c xs) = result c"
proof (induction xs arbitrary: c)
  case Nil
  then show ?case by simp
next
  case (Cons x xs)
  have x: "at (ips c) x + 1 \<le> n div 2"
    using Cons.prems(2) [of x] by simp
  have q: "\<not> done_flag (body n c x)" "result (body n c x) = result c"
    using body_quiet [OF Cons.prems(1) x] by simp_all
  have "at (ips (body n c x)) w + count_list xs w \<le> n div 2" for w
    using Cons.prems(2) [of w] by (auto simp: body_ips at_incr)
  from Cons.IH [OF q(1) this] q(2) show ?case by simp
qed

lemma foldl_emit:
  "\<not> done_flag c \<Longrightarrow> at (ips c) v \<le> n div 2 \<Longrightarrow>
   n div 2 < at (ips c) v + count_list xs v \<Longrightarrow>
   (\<And>w. w \<noteq> v \<Longrightarrow> at (ips c) w + count_list xs w \<le> n div 2) \<Longrightarrow>
     done_flag (foldl (body n) c xs) \<and> result (foldl (body n) c xs) = result c @ [v]"
proof (induction xs arbitrary: c)
  case Nil
  then show ?case by simp
next
  case (Cons x xs)
  show ?case
  proof (cases "n div 2 < at (ips c) x + 1")
    case True
    have "x = v"
    proof (rule ccontr)
      assume "x \<noteq> v"
      from Cons.prems(4) [OF this] True show False by simp
    qed
    with body_emit [OF Cons.prems(1) True] foldl_done [of "body n c x" n xs]
    show ?thesis by simp
  next
    case False
    then have x: "at (ips c) x + 1 \<le> n div 2" by simp
    have q: "\<not> done_flag (body n c x)" "result (body n c x) = result c"
      using body_quiet [OF Cons.prems(1) x] by simp_all
    have a: "at (ips (body n c x)) v \<le> n div 2"
      using x Cons.prems(2) by (auto simp: body_ips at_incr)
    have b: "n div 2 < at (ips (body n c x)) v + count_list xs v"
      using Cons.prems(3) by (auto simp: body_ips at_incr)
    have d: "at (ips (body n c x)) w + count_list xs w \<le> n div 2" if "w \<noteq> v" for w
      using Cons.prems(4) [OF that] by (auto simp: body_ips at_incr)
    from Cons.IH [OF q(1) a b d] q(2) show ?thesis by simp
  qed
qed

lemma count_list_two: "w \<noteq> v \<Longrightarrow> count_list xs w + count_list xs v \<le> length xs"
  by (induction xs) auto

lemma minority:
  assumes "length xs \<le> n" "n div 2 < count_list xs v" "w \<noteq> v"
  shows "count_list xs w \<le> n div 2"
  using count_list_two [OF assms(3), of xs] assms(1,2) by linarith

lemma start_fields:
  "ips start = Map.empty" "\<not> done_flag start" "result start = []" "\<not> closed start"
  by (simp_all add: start_def)

lemma collect_fields:
  "ips (collect n ch) = ips (foldl (body n) start (take n ch))"
  "result (collect n ch) = result (foldl (body n) start (take n ch))"
  "done_flag (collect n ch) = done_flag (foldl (body n) start (take n ch))"
  "closed (collect n ch) = (n \<le> length ch)"
  by (simp_all add: collect_def range_loop_foldl foldl_closed start_def)

lemma collect_majority:
  assumes "n div 2 < count_list (take n ch) v"
  shows "result (collect n ch) = [v]"
proof -
  have "count_list (take n ch) w \<le> n div 2" if "w \<noteq> v" for w
    using minority [of "take n ch" n v w] assms that by simp
  then show ?thesis
    using foldl_emit [of start v n "take n ch"] assms
    by (simp add: collect_fields start_fields at_empty)
qed

lemma aggregate_majority:
  "n div 2 < count_list (take n ch) v \<Longrightarrow> aggregate n ch = Some v"
  by (simp add: aggregate_def receive_def collect_majority)

lemma collect_no_majority:
  assumes "\<And>w. count_list (take n ch) w \<le> n div 2"
  shows "result (collect n ch) = []"
  using foldl_quiet [of start "take n ch" n] assms
  by (simp add: collect_fields start_fields at_empty)

lemma arrival_order:
  assumes "mset ch = mset results"
  shows "length ch = length results" "count_list ch w = count_list results w"
proof -
  show "length ch = length results"
    using assms by (rule mset_eq_length)
  have "count (mset ch) w = count (mset results) w"
    using assms by simp
  then show "count_list ch w = count_list results w"
    by (simp only: count_mset)
qed

lemma pool_sizes: "length queriers = 3" "length urls = 18"
  by (simp_all add: queriers_def urls_def)

lemma count_list_replicate: "count_list (replicate k x) y = (if x = y then k else 0)"
  by (induction k) auto

section \<open>The quorum\<close>

text \<open>
  C1. A pool of \<open>n\<close> askers returns the values \<open>results\<close>, and the collector receives
  them in the order \<open>ch\<close>, any rearrangement of \<open>results\<close>. If \<open>v\<close> occurs at least
  \<open>n div 2 + 1\<close> times among the results, the call returns \<open>v\<close>. In particular \<^verbatim>\<open>DNS\<close>
  returns \<^verbatim>\<open>"1.2.3.4"\<close> for the three results \<^verbatim>\<open>"1.2.3.4"\<close>, \<^verbatim>\<open>"1.2.3.4"\<close>, \<^verbatim>\<open>"5.6.7.8"\<close>
  in any order, and \<^verbatim>\<open>HTTP\<close> returns \<^verbatim>\<open>"9.9.9.9"\<close> for ten \<^verbatim>\<open>"9.9.9.9"\<close> and eight
  \<^verbatim>\<open>""\<close> in any order.
\<close>

theorem quorum_returns_majority:
  "(length results = n \<longrightarrow> mset ch = mset results \<longrightarrow>
      n div 2 + 1 \<le> count_list results v \<longrightarrow> aggregate n ch = Some v)
   \<and> (mset ch3 = mset [''1.2.3.4'', ''1.2.3.4'', ''5.6.7.8''] \<longrightarrow>
        DNS ch3 = Some ''1.2.3.4'')
   \<and> (mset ch18 = mset (replicate 10 ''9.9.9.9'' @ replicate 8 []) \<longrightarrow>
        HTTP ch18 = Some ''9.9.9.9'')"
proof (intro conjI impI)
  assume n: "length results = n" and p: "mset ch = mset results"
    and q: "n div 2 + 1 \<le> count_list results v"
  have "take n ch = ch"
    using arrival_order(1) [OF p] n by simp
  with q arrival_order(2) [OF p, of v] show "aggregate n ch = Some v"
    by (simp add: aggregate_majority)
next
  assume p: "mset ch3 = mset [''1.2.3.4'', ''1.2.3.4'', ''5.6.7.8'']"
  have "length ch3 = 3" "count_list ch3 ''1.2.3.4'' = 2"
    using arrival_order [OF p] by simp_all
  then show "DNS ch3 = Some ''1.2.3.4''"
    by (simp add: DNS_def pool_sizes aggregate_majority)
next
  assume p: "mset ch18 = mset (replicate 10 ''9.9.9.9'' @ replicate 8 [])"
  have "length ch18 = 18" "count_list ch18 ''9.9.9.9'' = 10"
    using arrival_order [OF p] by (simp_all add: count_list_replicate)
  then show "HTTP ch18 = Some ''9.9.9.9''"
    by (simp add: HTTP_def pool_sizes aggregate_majority)
qed

theorem quorum_returns_majority_witness:
  "aggregate 5 [''a'', ''b'', ''a'', ''c'', ''a''] = Some ''a''
   \<and> DNS [''5.6.7.8'', ''1.2.3.4'', ''1.2.3.4''] = Some ''1.2.3.4''
   \<and> HTTP ([] # ''9.9.9.9'' # [] # replicate 9 ''9.9.9.9'' @ replicate 6 [])
       = Some ''9.9.9.9''"
proof -
  have "mset ([] # ''9.9.9.9'' # [] # replicate 9 ''9.9.9.9'' @ replicate 6 [])
      = mset (replicate 10 ''9.9.9.9'' @ replicate 8 [])"
    by (simp add: numeral_eq_Suc)
  with quorum_returns_majority
    [of "[''a'', ''a'', ''a'', ''b'', ''c'']" 5 "[''a'', ''b'', ''a'', ''c'', ''a'']" "''a''"
        "[''5.6.7.8'', ''1.2.3.4'', ''1.2.3.4'']"
        "[] # ''9.9.9.9'' # [] # replicate 9 ''9.9.9.9'' @ replicate 6 []"]
  show ?thesis by simp
qed

lemma body_cases:
  assumes "\<not> done_flag c"
  shows "(done_flag (body n c x) \<and> result (body n c x) = result c @ [x]
            \<and> n div 2 < at (ips (body n c x)) x)
         \<or> (\<not> done_flag (body n c x) \<and> result (body n c x) = result c)"
  using assms by (simp add: body_def Let_def)

lemma foldl_emit_split:
  "\<not> done_flag c \<Longrightarrow> result (foldl (body n) c xs) = result c @ v # vs \<Longrightarrow>
     \<exists>pre post. xs = pre @ v # post
       \<and> \<not> done_flag (foldl (body n) c pre)
       \<and> result (foldl (body n) c pre) = result c
       \<and> result (foldl (body n) c (pre @ [v])) = result c @ [v]
       \<and> n div 2 < at (ips (foldl (body n) c (pre @ [v]))) v"
proof (induction xs arbitrary: c)
  case Nil
  then show ?case by simp
next
  case (Cons x xs)
  from body_cases [OF Cons.prems(1), of n x] show ?case
  proof (elim disjE conjE)
    assume d: "done_flag (body n c x)" and r: "result (body n c x) = result c @ [x]"
      and t: "n div 2 < at (ips (body n c x)) x"
    from foldl_done [OF d, of n xs] r Cons.prems(2) have "x = v"
      by simp
    with Cons.prems(1) r t have
      "x # xs = [] @ v # xs \<and> \<not> done_flag (foldl (body n) c [])
         \<and> result (foldl (body n) c []) = result c
         \<and> result (foldl (body n) c ([] @ [v])) = result c @ [v]
         \<and> n div 2 < at (ips (foldl (body n) c ([] @ [v]))) v"
      by simp
    then show ?thesis by blast
  next
    assume d: "\<not> done_flag (body n c x)" and r: "result (body n c x) = result c"
    from Cons.prems(2) r have "result (foldl (body n) (body n c x) xs) = result (body n c x) @ v # vs"
      by simp
    from Cons.IH [OF d this] obtain pre post where
      p: "xs = pre @ v # post" "\<not> done_flag (foldl (body n) (body n c x) pre)"
        "result (foldl (body n) (body n c x) pre) = result (body n c x)"
        "result (foldl (body n) (body n c x) (pre @ [v])) = result (body n c x) @ [v]"
        "n div 2 < at (ips (foldl (body n) (body n c x) (pre @ [v]))) v"
      by blast
    with r have
      "x # xs = (x # pre) @ v # post \<and> \<not> done_flag (foldl (body n) c (x # pre))
         \<and> result (foldl (body n) c (x # pre)) = result c
         \<and> result (foldl (body n) c ((x # pre) @ [v])) = result c @ [v]
         \<and> n div 2 < at (ips (foldl (body n) c ((x # pre) @ [v]))) v"
      by simp
    then show ?thesis by blast
  qed
qed

lemma foldl_flag:
  "done_flag c = (result c \<noteq> []) \<Longrightarrow> length (result c) \<le> 1 \<Longrightarrow>
     done_flag (foldl (body n) c xs) = (result (foldl (body n) c xs) \<noteq> [])
     \<and> length (result (foldl (body n) c xs)) \<le> 1"
proof (induction xs arbitrary: c)
  case Nil
  then show ?case by simp
next
  case (Cons x xs)
  have "done_flag (body n c x) = (result (body n c x) \<noteq> [])"
      "length (result (body n c x)) \<le> 1"
    using Cons.prems by (auto simp: body_def Let_def)
  from Cons.IH [OF this] show ?case by simp
qed

lemma collect_flag:
  "done_flag (collect n ch) = (result (collect n ch) \<noteq> [])"
  "length (result (collect n ch)) \<le> 1"
  using foldl_flag [of start n "take n ch"]
  by (simp_all add: collect_fields start_fields)

lemma collect_ips: "at (ips (collect n ch)) w = count_list (take n ch) w"
  by (simp add: collect_fields foldl_ips start_fields at_empty)

text \<open>
  C2. Whenever the collector has sent a value \<open>v\<close> on \<^verbatim>\<open>result\<close>, the received values
  split as \<open>pre @ v # post\<close>: nothing was sent while \<open>pre\<close> was tallied, \<open>v\<close> was sent
  on the receive that followed, and at that moment the tally of \<open>v\<close> was at least
  \<open>n div 2 + 1\<close>. Conversely, if in the tally after the last receive no value reaches
  \<open>n div 2 + 1\<close>, nothing has been sent after any number \<open>j\<close> of receives.
\<close>

theorem emission_has_quorum:
  "(result (collect n ch) = v # vs \<longrightarrow>
      (\<exists>pre post. take n ch = pre @ v # post
         \<and> result (collect n pre) = []
         \<and> result (collect n (pre @ [v])) = [v]
         \<and> n div 2 + 1 \<le> at (ips (collect n (pre @ [v]))) v))
   \<and> ((\<forall>w. at (ips (collect n ch)) w < n div 2 + 1) \<longrightarrow>
        (\<forall>j. result (collect n (take j ch)) = []))"
proof (intro conjI impI allI)
  assume r: "result (collect n ch) = v # vs"
  then have "result (foldl (body n) start (take n ch)) = result start @ v # vs"
    by (simp add: collect_fields start_fields)
  from foldl_emit_split [OF start_fields(2) this] obtain pre post where
    p: "take n ch = pre @ v # post"
      "result (foldl (body n) start pre) = result start"
      "result (foldl (body n) start (pre @ [v])) = result start @ [v]"
      "n div 2 < at (ips (foldl (body n) start (pre @ [v]))) v"
    by blast
  have "length (take n ch) \<le> n" by simp
  with p(1) have l: "length pre < n" by simp
  then have t: "take n pre = pre" "take n (pre @ [v]) = pre @ [v]" by simp_all
  have "result (collect n pre) = result (foldl (body n) start pre)"
       "result (collect n (pre @ [v])) = result (foldl (body n) start (pre @ [v]))"
       "ips (collect n (pre @ [v])) = ips (foldl (body n) start (pre @ [v]))"
    by (simp_all only: collect_fields t)
  with p(2-4) have "result (collect n pre) = []"
       "result (collect n (pre @ [v])) = [v]"
       "n div 2 + 1 \<le> at (ips (collect n (pre @ [v]))) v"
    by (simp_all add: start_fields)
  with p(1) show "\<exists>pre post. take n ch = pre @ v # post
         \<and> result (collect n pre) = []
         \<and> result (collect n (pre @ [v])) = [v]
         \<and> n div 2 + 1 \<le> at (ips (collect n (pre @ [v]))) v"
    by blast
next
  fix j
  assume a: "\<forall>w. at (ips (collect n ch)) w < n div 2 + 1"
  have "count_list (take n (take j ch)) w \<le> n div 2" for w
  proof -
    have "take n ch = take n (take j ch) @ drop j (take n ch)"
      by (metis append_take_drop_id take_take min.commute take_drop drop_take)
    then have "count_list (take n ch) w = count_list (take n (take j ch)) w + count_list (drop j (take n ch)) w"
      by (metis count_list_append)
    moreover have "at (ips (collect n ch)) w = count_list (take n ch) w"
      by (simp add: collect_fields foldl_ips start_fields at_empty)
    ultimately show ?thesis using a [rule_format, of w] by simp
  qed
  then show "result (collect n (take j ch)) = []"
    by (rule collect_no_majority)
qed


theorem emission_has_quorum_witness:
  "(\<exists>pre post. take 3 [''5.6.7.8'', ''1.2.3.4'', ''1.2.3.4''] = pre @ ''1.2.3.4'' # post
       \<and> result (collect 3 pre) = []
       \<and> result (collect 3 (pre @ [''1.2.3.4''])) = [''1.2.3.4'']
       \<and> 3 div 2 + 1 \<le> at (ips (collect 3 (pre @ [''1.2.3.4'']))) ''1.2.3.4'')
   \<and> (\<forall>j. result (collect 4 (take j [''a'', ''a'', ''b'', ''b''])) = [])"
proof -
  have a: "result (collect 3 [''5.6.7.8'', ''1.2.3.4'', ''1.2.3.4'']) = ''1.2.3.4'' # []"
    by code_simp
  have b: "\<forall>w. at (ips (collect 4 [''a'', ''a'', ''b'', ''b''])) w < 4 div 2 + 1"
    by (simp add: collect_ips)
  from emission_has_quorum
         [of 3 "[''5.6.7.8'', ''1.2.3.4'', ''1.2.3.4'']" "''1.2.3.4''" "[]"]
       emission_has_quorum [of 4 "[''a'', ''a'', ''b'', ''b'']"] a b
  show ?thesis by blast
qed

text \<open>
  C4. When all \<open>n\<close> askers have delivered their results and no value occurs
  \<open>n div 2 + 1\<close> times among them, the call returns, and it returns the empty string:
  the collector closes \<^verbatim>\<open>result\<close> after its last receive.
\<close>

theorem no_quorum_returns_empty:
  assumes "length results = n" and "mset ch = mset results"
    and "\<forall>w. count_list results w < n div 2 + 1"
  shows "aggregate n ch = Some ''''"
proof -
  have t: "take n ch = ch" and l: "n \<le> length ch"
    using arrival_order(1) [OF assms(2)] assms(1) by simp_all
  have "count_list (take n ch) w \<le> n div 2" for w
    using assms(3) arrival_order(2) [OF assms(2), of w] t by (simp add: less_Suc_eq_le)
  then have "result (collect n ch) = []"
    by (rule collect_no_majority)
  with l show ?thesis
    by (simp add: aggregate_def receive_def collect_fields)
qed

theorem no_quorum_returns_empty_witness:
  "aggregate 3 [''1.1.1.1'', ''2.2.2.2'', []] = Some ''''"
  using no_quorum_returns_empty
    [of "[[], ''1.1.1.1'', ''2.2.2.2'']" 3 "[''1.1.1.1'', ''2.2.2.2'', []]"]
  by simp

text \<open>
  C3. The call does not block for ever on a pool without a majority. With four distinct
  results, or with a 2-2 split, all delivered, it returns the empty string.
\<close>

theorem no_majority_blocks_counterexample:
  "aggregate 4 [''1.1.1.1'', ''2.2.2.2'', ''3.3.3.3'', ''4.4.4.4''] \<noteq> None
   \<and> aggregate 4 [''1.1.1.1'', ''2.2.2.2'', ''3.3.3.3'', ''4.4.4.4''] = Some ''''
   \<and> aggregate 4 [''1.1.1.1'', ''2.2.2.2'', ''1.1.1.1'', ''2.2.2.2''] = Some ''''"
  by code_simp

text \<open>
  C3, as the code has it: on a pool of \<open>n\<close> askers whose results hold no value more than
  \<open>n div 2\<close> times, the collector never sends a value; the caller is blocked as long as
  fewer than \<open>n\<close> results have been delivered, and once all \<open>n\<close> are delivered the call
  returns the empty string.
\<close>

theorem no_majority_blocks_until_all_arrive:
  assumes "length results = n" and "mset ch = mset results"
    and "\<forall>w. count_list results w \<le> n div 2"
  shows "(\<forall>j. result (collect n (take j ch)) = [])
     \<and> (\<forall>j<n. aggregate n (take j ch) = None)
     \<and> aggregate n ch = Some ''''"
proof -
  have t: "take n ch = ch" and l: "length ch = n"
    using arrival_order(1) [OF assms(2)] assms(1) by simp_all
  have q: "result (collect n (take j ch)) = []" for j
  proof (rule collect_no_majority)
    fix w
    have "ch = take n (take j ch) @ drop j ch"
      using l by (simp add: min_def)
    then have "count_list ch w = count_list (take n (take j ch)) w + count_list (drop j ch) w"
      by (metis count_list_append)
    with assms(3) [rule_format, of w] arrival_order(2) [OF assms(2), of w]
    show "count_list (take n (take j ch)) w \<le> n div 2"
      by linarith
  qed
  have "aggregate n (take j ch) = None" if "j < n" for j
    using q [of j] that l by (simp add: aggregate_def receive_def collect_fields)
  moreover have "aggregate n ch = Some ''''"
    using q [of n] t l by (simp add: aggregate_def receive_def collect_fields)
  ultimately show ?thesis using q by blast
qed

theorem no_majority_blocks_until_all_arrive_witness:
  "(\<forall>j. result (collect 4 (take j [''1.1.1.1'', ''2.2.2.2'', ''1.1.1.1'', ''2.2.2.2''])) = [])
   \<and> aggregate 4 (take 3 [''1.1.1.1'', ''2.2.2.2'', ''1.1.1.1'', ''2.2.2.2'']) = None
   \<and> aggregate 4 [''1.1.1.1'', ''2.2.2.2'', ''1.1.1.1'', ''2.2.2.2''] = Some ''''"
proof -
  have "mset [''1.1.1.1'', ''2.2.2.2'', ''1.1.1.1'', ''2.2.2.2'']
      = mset [''1.1.1.1'', ''1.1.1.1'', ''2.2.2.2'', ''2.2.2.2'']"
    by simp
  moreover have "\<forall>w. count_list [''1.1.1.1'', ''1.1.1.1'', ''2.2.2.2'', ''2.2.2.2''] w \<le> 4 div 2"
    by simp
  ultimately have r:
    "(\<forall>j. result (collect 4 (take j [''1.1.1.1'', ''2.2.2.2'', ''1.1.1.1'', ''2.2.2.2''])) = [])
     \<and> (\<forall>j<4. aggregate 4 (take j [''1.1.1.1'', ''2.2.2.2'', ''1.1.1.1'', ''2.2.2.2'']) = None)
     \<and> aggregate 4 [''1.1.1.1'', ''2.2.2.2'', ''1.1.1.1'', ''2.2.2.2''] = Some ''''"
    using no_majority_blocks_until_all_arrive
      [of "[''1.1.1.1'', ''1.1.1.1'', ''2.2.2.2'', ''2.2.2.2'']" 4
          "[''1.1.1.1'', ''2.2.2.2'', ''1.1.1.1'', ''2.2.2.2'']"]
    by simp
  then have "\<forall>j<4. aggregate 4 (take j [''1.1.1.1'', ''2.2.2.2'', ''1.1.1.1'', ''2.2.2.2'']) = None"
    by (elim conjE)
  then have "(3::nat) < 4
      \<longrightarrow> aggregate 4 (take 3 [''1.1.1.1'', ''2.2.2.2'', ''1.1.1.1'', ''2.2.2.2'']) = None"
    by (rule spec)
  then have "aggregate 4 (take 3 [''1.1.1.1'', ''2.2.2.2'', ''1.1.1.1'', ''2.2.2.2'']) = None"
    by simp
  with r show ?thesis by (elim conjE) (intro conjI)
qed

text \<open>
  C6. When the empty string occurs at least \<open>n div 2 + 1\<close> times among the \<open>n\<close> results,
  the call returns the empty string, and it does so because the collector sent it as the
  winner: the empty string is tallied like any other value.
\<close>

theorem empty_string_wins:
  assumes "length results = n" and "mset ch = mset results"
    and "n div 2 + 1 \<le> count_list results ''''"
  shows "aggregate n ch = Some '''' \<and> result (collect n ch) = ['''']"
proof -
  have "take n ch = ch"
    using arrival_order(1) [OF assms(2)] assms(1) by simp
  with assms(3) arrival_order(2) [OF assms(2), of "''''"]
  have "n div 2 < count_list (take n ch) ''''"
    by simp
  then show ?thesis
    by (simp add: aggregate_majority collect_majority)
qed

theorem empty_string_wins_witness:
  "aggregate 3 ['''', ''1.2.3.4'', ''''] = Some '''' \<and> result (collect 3 ['''', ''1.2.3.4'', '''']) = ['''']"
  using empty_string_wins [of "[''1.2.3.4'', '''', '''']" 3 "['''', ''1.2.3.4'', '''']"]
  by simp

text \<open>
  C7. The collector sends at most one value on \<^verbatim>\<open>result\<close> per call, in whatever order the
  values arrive. Once a value has been sent after \<open>j\<close> receives, the later receives send
  nothing more, though the winner's tally may go on growing above \<open>n div 2\<close>.
\<close>

theorem emits_at_most_once:
  "length (result (collect n ch)) \<le> 1
   \<and> (result (collect n (take j ch)) \<noteq> [] \<longrightarrow>
        result (collect n ch) = result (collect n (take j ch)))"
proof (intro conjI impI)
  show "length (result (collect n ch)) \<le> 1"
    by (rule collect_flag(2))
next
  assume e: "result (collect n (take j ch)) \<noteq> []"
  let ?c = "foldl (body n) start (take n (take j ch))"
  have d: "done_flag ?c"
    using e collect_flag(1) [of n "take j ch"] by (simp add: collect_fields)
  have "take n ch = take n (take j ch) @ drop j (take n ch)"
    by (metis append_take_drop_id take_take min.commute)
  then have "foldl (body n) start (take n ch) = foldl (body n) ?c (drop j (take n ch))"
    by (metis foldl_append)
  with foldl_done [OF d, of n "drop j (take n ch)"]
  show "result (collect n ch) = result (collect n (take j ch))"
    by (simp add: collect_fields)
qed

theorem emits_at_most_once_witness:
  "length (result (collect 3 [''1.2.3.4'', ''1.2.3.4'', ''1.2.3.4''])) \<le> 1
   \<and> 3 div 2 < at (ips (collect 3 [''1.2.3.4'', ''1.2.3.4'', ''1.2.3.4''])) ''1.2.3.4''
   \<and> result (collect 3 [''1.2.3.4'', ''1.2.3.4'', ''1.2.3.4''])
       = result (collect 3 (take 2 [''1.2.3.4'', ''1.2.3.4'', ''1.2.3.4'']))"
proof -
  have "result (collect 3 (take 2 [''1.2.3.4'', ''1.2.3.4'', ''1.2.3.4''])) \<noteq> []"
    by code_simp
  moreover
  have "3 div 2 < at (ips (collect 3 [''1.2.3.4'', ''1.2.3.4'', ''1.2.3.4''])) ''1.2.3.4''"
    by (simp add: collect_ips)
  ultimately show ?thesis
    using emits_at_most_once [of 3 "[''1.2.3.4'', ''1.2.3.4'', ''1.2.3.4'']" 2]
    by blast
qed

lemma foldl_dom: "dom (ips (foldl (body n) c xs)) = dom (ips c) \<union> set xs"
  by (induction xs arbitrary: c) (auto simp: body_ips incr_def)

text \<open>
  C8. On a pool of \<open>n\<close> askers, whatever the arrival order, the collector makes all \<open>n\<close>
  receives and then closes \<^verbatim>\<open>result\<close>; the final tally of every value is the number of
  askers that returned it, the keys of the map are the results, and the counts add up to
  \<open>n\<close>. Every receive adds one to the tally of the value received, in every state \<open>c\<close>
  of the collector, also after the winner has been sent.
\<close>

theorem every_result_tallied_once:
  assumes "length results = n" and "mset ch = mset results"
  shows "at (ips (collect n ch)) w = count_list results w
     \<and> dom (ips (collect n ch)) = set results
     \<and> (\<Sum>x\<in>set results. at (ips (collect n ch)) x) = n
     \<and> closed (collect n ch)
     \<and> at (ips (body n c ip)) ip = at (ips c) ip + 1"
proof -
  have t: "take n ch = ch" and l: "length ch = n"
    using arrival_order(1) [OF assms(2)] assms(1) by simp_all
  have s: "set ch = set results"
    using assms(2) by (rule mset_eq_setD)
  have a: "at (ips (collect n ch)) x = count_list results x" for x
    using arrival_order(2) [OF assms(2), of x] by (simp add: collect_ips t)
  have "dom (ips (collect n ch)) = set results"
    using s by (simp add: collect_fields foldl_dom start_fields t)
  moreover have "(\<Sum>x\<in>set results. at (ips (collect n ch)) x) = n"
    using sum_count_set [of results "set results"] assms(1) by (simp add: a)
  moreover have "closed (collect n ch)"
    using l by (simp add: collect_fields)
  moreover have "at (ips (body n c ip)) ip = at (ips c) ip + 1"
    by (simp add: body_ips at_incr)
  ultimately show ?thesis using a [of w] by simp
qed

theorem every_result_tallied_once_witness:
  "at (ips (collect 3 [''1.2.3.4'', ''1.2.3.4'', ''5.6.7.8''])) ''5.6.7.8'' = 1
   \<and> at (ips (collect 3 [''1.2.3.4'', ''1.2.3.4'', ''5.6.7.8''])) ''1.2.3.4'' = 2
   \<and> dom (ips (collect 3 [''1.2.3.4'', ''1.2.3.4'', ''5.6.7.8''])) = {''1.2.3.4'', ''5.6.7.8''}
   \<and> closed (collect 3 [''1.2.3.4'', ''1.2.3.4'', ''5.6.7.8''])"
  using every_result_tallied_once
      [of "[''5.6.7.8'', ''1.2.3.4'', ''1.2.3.4'']" 3
          "[''1.2.3.4'', ''1.2.3.4'', ''5.6.7.8'']" "''5.6.7.8''"]
    every_result_tallied_once
      [of "[''5.6.7.8'', ''1.2.3.4'', ''1.2.3.4'']" 3
          "[''1.2.3.4'', ''1.2.3.4'', ''5.6.7.8'']" "''1.2.3.4''"]
  by auto

section \<open>The askers\<close>

text \<open>
  C9. When the GET request and the read of the body both succeed, \<^verbatim>\<open>urlGetReadAll\<close>
  returns the body passed through \<^verbatim>\<open>strings.TrimSpace\<close> and nothing else is done to it,
  whatever the body is. When the request fails, or the read of the body fails, it
  returns the empty string.
\<close>

theorem urlGetReadAll_result:
  "(Get e url = Inr resp \<and> Body resp = Inr bytes \<longrightarrow>
      urlGetReadAll e url = TrimSpace e bytes)
   \<and> (Get e url = Inl err \<longrightarrow> urlGetReadAll e url = '''')
   \<and> (Get e url = Inr resp \<and> Body resp = Inl err \<longrightarrow> urlGetReadAll e url = '''')"
  by (simp add: urlGetReadAll_def)

theorem urlGetReadAll_result_witness:
  "urlGetReadAll sample_env ''https://api.ipify.org/'' = ''203.0.113.7''
   \<and> urlGetReadAll sample_env ''https://tnx.nl/ip'' = ''''
   \<and> urlGetReadAll sample_env ''https://icanhazip.com'' = ''''"
proof -
  have a: "Get sample_env ''https://api.ipify.org/''
        = Inr \<lparr>StatusCode = 200, Body = Inr '' 203.0.113.7 ''\<rparr>"
    and b: "Get sample_env ''https://tnx.nl/ip'' = Inl (Error ''connection refused'')"
    and c: "Get sample_env ''https://icanhazip.com''
        = Inr \<lparr>StatusCode = 200, Body = Inl (Error ''unexpected EOF'')\<rparr>"
    and t: "TrimSpace sample_env '' 203.0.113.7 '' = ''203.0.113.7''"
    by (simp_all add: sample_env_def trim_blanks_def)
  from
    urlGetReadAll_result [of sample_env "''https://api.ipify.org/''"
      "\<lparr>StatusCode = 200, Body = Inr '' 203.0.113.7 ''\<rparr>" "'' 203.0.113.7 ''"]
    urlGetReadAll_result [of sample_env "''https://tnx.nl/ip''" _ _
      "Error ''connection refused''"]
    urlGetReadAll_result [of sample_env "''https://icanhazip.com''"
      "\<lparr>StatusCode = 200, Body = Inl (Error ''unexpected EOF'')\<rparr>" _
      "Error ''unexpected EOF''"]
    a b c t
  show ?thesis by simp
qed

lemma count_list_map: "count_list (map f xs) y = length (filter (\<lambda>x. f x = y) xs)"
  by (induction xs) simp_all

lemma length_filter_mono:
  "(\<And>x. P x \<Longrightarrow> Q x) \<Longrightarrow> length (filter P xs) \<le> length (filter Q xs)"
  by (induction xs) auto

text \<open>
  C10. \<^verbatim>\<open>urlGetReadAll\<close> never reads the status code: a response delivered with any
  status \<open>code\<close> and a readable body yields the trimmed body. So when more than half of
  the eighteen services answer with the same body, each with a status of its own
  (\<open>status u\<close>, 2xx or not), \<^verbatim>\<open>HTTP\<close> returns that trimmed body, in every arrival order.
\<close>

theorem status_code_is_ignored:
  "(Get e url = Inr \<lparr>StatusCode = code, Body = Inr bytes\<rparr> \<longrightarrow>
      urlGetReadAll e url = TrimSpace e bytes)
   \<and> (mset ch = mset (map (urlGetReadAll e) urls) \<longrightarrow>
        length urls div 2
          < length (filter
              (\<lambda>u. Get e u = Inr \<lparr>StatusCode = status u, Body = Inr bytes\<rparr>) urls) \<longrightarrow>
        HTTP ch = Some (TrimSpace e bytes))"
proof (intro conjI impI)
  assume "Get e url = Inr \<lparr>StatusCode = code, Body = Inr bytes\<rparr>"
  then show "urlGetReadAll e url = TrimSpace e bytes"
    by (simp add: urlGetReadAll_def)
next
  let ?P = "\<lambda>u. Get e u = Inr \<lparr>StatusCode = status u, Body = Inr bytes\<rparr>"
  assume p: "mset ch = mset (map (urlGetReadAll e) urls)"
    and m: "length urls div 2 < length (filter ?P urls)"
  have "length (filter ?P urls)
      \<le> length (filter (\<lambda>u. urlGetReadAll e u = TrimSpace e bytes) urls)"
    by (rule length_filter_mono) (simp add: urlGetReadAll_def)
  with m have
    "length urls div 2 < count_list (map (urlGetReadAll e) urls) (TrimSpace e bytes)"
    by (simp add: count_list_map)
  moreover have "take (length urls) ch = ch"
    using arrival_order(1) [OF p] by simp
  ultimately show "HTTP ch = Some (TrimSpace e bytes)"
    using arrival_order(2) [OF p, of "TrimSpace e bytes"]
    by (simp add: HTTP_def aggregate_majority)
qed

theorem status_code_is_ignored_witness:
  "urlGetReadAll sample_env ''http://eth0.me/'' = ''Not Found''
   \<and> HTTP ('''' # '''' # ''203.0.113.7'' # replicate 10 ''Not Found'' @ replicate 5 '''')
       = Some ''Not Found''"
proof -
  have g: "Get sample_env ''http://eth0.me/''
        = Inr \<lparr>StatusCode = 404, Body = Inr '' Not Found ''\<rparr>"
    and t: "TrimSpace sample_env '' Not Found '' = ''Not Found''"
    by (simp_all add: sample_env_def trim_blanks_def)
  have r: "map (urlGetReadAll sample_env) urls
      = replicate 10 ''Not Found'' @ [[], [], [], ''203.0.113.7'', [], [], [], []]"
    by (simp add: urls_def urlGetReadAll_def sample_env_def trim_blanks_def numeral_eq_Suc)
  have p: "mset ('''' # '''' # ''203.0.113.7'' # replicate 10 ''Not Found'' @ replicate 5 '''')
      = mset (map (urlGetReadAll sample_env) urls)"
    unfolding r by (simp add: numeral_eq_Suc)
  have f: "filter
        (\<lambda>u. Get sample_env u = Inr \<lparr>StatusCode = 404, Body = Inr '' Not Found ''\<rparr>) urls
      = take 10 urls"
    by (simp add: urls_def sample_env_def)
  have m: "length urls div 2
      < length (filter
          (\<lambda>u. Get sample_env u = Inr \<lparr>StatusCode = 404, Body = Inr '' Not Found ''\<rparr>) urls)"
    unfolding f by (simp add: urls_def)
  from status_code_is_ignored [of sample_env "''http://eth0.me/''" 404 "'' Not Found ''"
         "'''' # '''' # ''203.0.113.7'' # replicate 10 ''Not Found'' @ replicate 5 ''''"
         "\<lambda>u. 404"]
       g t p m
  show ?thesis by simp
qed

text \<open>
  C5. A DNS asker does not return the empty string on every outcome of its exchange. On a
  reply without error whose answer section is empty, \<^verbatim>\<open>in.Answer[0]\<close> is out of range and
  each of the three askers panics; \<^verbatim>\<open>GoogleDNS\<close> panics as well on a first answer that is
  a TXT record without strings, at \<^verbatim>\<open>t.Txt[0]\<close>.
\<close>

theorem dns_askers_panic_on_empty_answer:
  "GoogleDNS (e\<lparr>Exchange := \<lambda>name t server. Inr \<lparr>Answer = []\<rparr>\<rparr>) = Inl IndexOutOfRange
   \<and> OpenDNS (e\<lparr>Exchange := \<lambda>name t server. Inr \<lparr>Answer = []\<rparr>\<rparr>) = Inl IndexOutOfRange
   \<and> AkamaiDNS (e\<lparr>Exchange := \<lambda>name t server. Inr \<lparr>Answer = []\<rparr>\<rparr>) = Inl IndexOutOfRange
   \<and> GoogleDNS (e\<lparr>Exchange := \<lambda>name t server. Inr \<lparr>Answer = [RR_TXT []]\<rparr>\<rparr>)
       = Inl IndexOutOfRange"
  by (simp add: GoogleDNS_def OpenDNS_def AkamaiDNS_def)

end
